theory Spec2Isabelle
  imports Main "HOL-Library.Word"
begin

section \<open>The frame DMA of litevideo: slots, slot array and transfer engine\<close>

text \<open>
  The source is \<^verbatim>\<open>litevideo/input/dma.py\<close>: a synchronous circuit described with
  migen. The embedding is cycle based. A state holds the registers of the design, an
  input holds what the environment drives during one clock cycle, the combinational
  signals are functions of input and state, and one clock edge is a function from input
  and state to the next state. Addresses are \<open>bus_aw\<close> bits wide (\<open>'a word\<close>), data words
  are \<open>bus_dw\<close> bits wide (\<open>'d word\<close>).
\<close>

subsection \<open>Registers\<close>

text \<open>
  \<^verbatim>\<open>_Slot\<close> holds two registers: \<^verbatim>\<open>_status\<close> (2 bits; EMPTY=0 LOADED=1 PENDING=2) and
  \<^verbatim>\<open>_address\<close>. Both are declared with \<^verbatim>\<open>write_from_dev=True\<close>.
\<close>

record (overloaded) ('a :: len) slot =
  status_storage :: "2 word"
  address_storage :: "'a word"

datatype fsm_state = WAIT_SOF | TRANSFER_PIXELS | EOF

text \<open>
  The registers of \<^verbatim>\<open>DMA\<close>: the slots and \<^verbatim>\<open>current_slot\<close> of its \<^verbatim>\<open>_SlotArray\<close>, the
  \<^verbatim>\<open>_frame_size\<close> register, the address generator and the state of the control FSM.
\<close>

record (overloaded) ('a :: len) dma =
  slots :: "'a slot list"
  current_slot :: nat
  frame_size :: "'a word"
  current_address :: "'a word"
  mwords_remaining :: "'a word"
  fsm :: fsm_state

text \<open>
  Modelled from the spec: the register bank primitive \<^verbatim>\<open>CSRStorage\<close> belongs to litex and
  is not in the source tree. The spec's control-plane surface gives the consumer a
  readable and writable \<open>target_address\<close> and \<open>status\<close> per slot and a global
  \<open>frame_word_count\<close>. A consumer access is a write of a whole register; a write to a
  slot that does not exist changes nothing.
\<close>

datatype 'w csr_op =
    WrStatus nat "2 word"
  | WrAddress nat 'w
  | WrFrameSize 'w

text \<open>What the environment drives in one clock cycle.\<close>

record (overloaded) ('a :: len, 'd :: len) cycle_in =
  frame_valid :: bool
  frame_sof :: bool
  frame_pixels :: "'d word"
  sink_ready :: bool
  wdata_valid :: bool
  csr :: "'a word csr_op option"

subsection \<open>Combinational signals of \<^verbatim>\<open>_Slot\<close> and \<^verbatim>\<open>_SlotArray\<close>\<close>

definition slot_address :: "('a :: len) slot \<Rightarrow> 'a word" where
  "slot_address sl = address_storage sl"

definition slot_address_valid :: "('a :: len) slot \<Rightarrow> bool" where
  "slot_address_valid sl = bit (status_storage sl) 0"

text \<open>
  A migen \<^verbatim>\<open>Array\<close> indexed by a signal lowers to a case statement whose default is the
  last element.
\<close>

definition Array_sel :: "'b list \<Rightarrow> nat \<Rightarrow> 'b" where
  "Array_sel xs i = xs ! min i (length xs - 1)"

definition sa_address :: "('a :: len) dma \<Rightarrow> 'a word" where
  "sa_address s = Array_sel (map slot_address (slots s)) (current_slot s)"

definition sa_address_valid :: "('a :: len) dma \<Rightarrow> bool" where
  "sa_address_valid s = Array_sel (map slot_address_valid (slots s)) (current_slot s)"

subsection \<open>Combinational signals of \<^verbatim>\<open>DMA\<close>\<close>

definition last_word :: "('a :: len) dma \<Rightarrow> bool" where
  "last_word s = (mwords_remaining s = 1)"

definition reset_words :: "('a :: len) dma \<Rightarrow> bool" where
  "reset_words s = (fsm s = WAIT_SOF)"

definition frame_ready :: "('a :: len, 'd :: len) cycle_in \<Rightarrow> 'a dma \<Rightarrow> bool" where
  "frame_ready i s =
     (case fsm s of
        WAIT_SOF \<Rightarrow> \<not> sa_address_valid s \<or> \<not> frame_sof i
      | TRANSFER_PIXELS \<Rightarrow> sink_ready i
      | EOF \<Rightarrow> False)"

definition sink_valid :: "('a :: len, 'd :: len) cycle_in \<Rightarrow> 'a dma \<Rightarrow> bool" where
  "sink_valid i s = (fsm s = TRANSFER_PIXELS \<and> frame_valid i)"

definition count_word :: "('a :: len, 'd :: len) cycle_in \<Rightarrow> 'a dma \<Rightarrow> bool" where
  "count_word i s = (fsm s = TRANSFER_PIXELS \<and> frame_valid i \<and> sink_ready i)"

definition address_done :: "('a :: len, 'd :: len) cycle_in \<Rightarrow> 'a dma \<Rightarrow> bool" where
  "address_done i s = (fsm s = EOF \<and> \<not> wdata_valid i)"

definition change_slot :: "('a :: len, 'd :: len) cycle_in \<Rightarrow> 'a dma \<Rightarrow> bool" where
  "change_slot i s = (\<not> sa_address_valid s \<or> address_done i s)"

definition slot_address_done :: "('a :: len, 'd :: len) cycle_in \<Rightarrow> 'a dma \<Rightarrow> nat \<Rightarrow> bool" where
  "slot_address_done i s n = (address_done i s \<and> current_slot s = n)"

text \<open>
  \<^verbatim>\<open>memory_word\<close> is the concatenation of \<open>bus_dw // 16\<close> copies of the pixel word, cut to
  \<open>bus_dw\<close> bits; the pixel word is itself \<open>bus_dw\<close> bits wide.
\<close>

definition memory_word :: "('d :: len) word \<Rightarrow> 'd word" where
  "memory_word p = (if LENGTH('d) div 16 = 0 then 0 else p)"

subsection \<open>The clock edge\<close>

text \<open>
  The arbitration statements of \<^verbatim>\<open>_SlotArray\<close>: one guarded assignment to \<^verbatim>\<open>current_slot\<close>
  per slot, in descending order of index; in a synchronous block a later assignment
  overrides an earlier one.
\<close>

definition arb_stmt :: "nat \<Rightarrow> nat \<times> ('a :: len) slot \<Rightarrow> nat" where
  "arb_stmt cur p = (if slot_address_valid (snd p) then fst p else cur)"

definition arbitration :: "('a :: len) slot list \<Rightarrow> nat \<Rightarrow> nat" where
  "arbitration sls cur = foldl arb_stmt cur (rev (enumerate 0 sls))"

definition slot_sync :: "bool \<Rightarrow> ('a :: len) word \<Rightarrow> 'a slot \<Rightarrow> 'a slot" where
  "slot_sync done reached sl =
     (if done then sl\<lparr>status_storage := 2, address_storage := reached\<rparr> else sl)"

definition next_fsm :: "('a :: len, 'd :: len) cycle_in \<Rightarrow> 'a dma \<Rightarrow> fsm_state" where
  "next_fsm i s =
     (case fsm s of
        WAIT_SOF \<Rightarrow>
          if sa_address_valid s \<and> frame_sof i \<and> frame_valid i then TRANSFER_PIXELS
          else WAIT_SOF
      | TRANSFER_PIXELS \<Rightarrow>
          if frame_valid i \<and> sink_ready i \<and> last_word s then EOF else TRANSFER_PIXELS
      | EOF \<Rightarrow> if \<not> wdata_valid i then WAIT_SOF else EOF)"

text \<open>The synchronous assignments of the design itself (the producer side).\<close>

definition DMA_sync :: "('a :: len, 'd :: len) cycle_in \<Rightarrow> 'a dma \<Rightarrow> 'a dma" where
  "DMA_sync i s =
     \<lparr> slots = map (\<lambda>(n, sl). slot_sync (slot_address_done i s n) (current_address s) sl)
                 (enumerate 0 (slots s)),
       current_slot =
         (if change_slot i s then arbitration (slots s) (current_slot s) else current_slot s),
       frame_size = frame_size s,
       current_address =
         (if reset_words s then sa_address s
          else if count_word i s then current_address s + 1
          else current_address s),
       mwords_remaining =
         (if reset_words s then frame_size s
          else if count_word i s then mwords_remaining s - 1
          else mwords_remaining s),
       fsm = next_fsm i s \<rparr>"

text \<open>
  Modelled from the spec: the consumer side of the registers (\<^verbatim>\<open>CSRStorage\<close> of litex, not
  in the source tree). The consumer writes \<open>status\<close>, \<open>target_address\<close> and
  \<open>frame_word_count\<close>, and nothing else. Where the design and the consumer write one
  register at the same clock edge, the consumer's value is the one stored, as in litex,
  whose bus write is assigned after the write from the design.
\<close>

fun csr_write :: "('a :: len) word csr_op option \<Rightarrow> 'a dma \<Rightarrow> 'a dma" where
  "csr_write None s = s"
| "csr_write (Some (WrStatus n v)) s =
     (if n < length (slots s)
      then s\<lparr>slots := (slots s)[n := (slots s ! n)\<lparr>status_storage := v\<rparr>]\<rparr> else s)"
| "csr_write (Some (WrAddress n a)) s =
     (if n < length (slots s)
      then s\<lparr>slots := (slots s)[n := (slots s ! n)\<lparr>address_storage := a\<rparr>]\<rparr> else s)"
| "csr_write (Some (WrFrameSize w)) s = s\<lparr>frame_size := w\<rparr>"

text \<open>One clock cycle of the whole system: the design's clock edge and the consumer's write.\<close>

definition cycle :: "('a :: len, 'd :: len) cycle_in \<Rightarrow> 'a dma \<Rightarrow> 'a dma" where
  "cycle i s = csr_write (csr i) (DMA_sync i s)"

definition DMA_reset :: "nat \<Rightarrow> ('a :: len) dma" where
  "DMA_reset nslots =
     \<lparr> slots = replicate nslots \<lparr>status_storage = 0, address_storage = 0\<rparr>,
       current_slot = 0, frame_size = 0, current_address = 0, mwords_remaining = 0,
       fsm = WAIT_SOF \<rparr>"

subsection \<open>Executions\<close>

fun run :: "('a :: len, 'd :: len) cycle_in list \<Rightarrow> 'a dma \<Rightarrow> 'a dma" where
  "run [] s = s"
| "run (i # is) s = run is (cycle i s)"

text \<open>The writes accepted by the bus accessor during an execution, oldest first.\<close>

fun writes :: "('a :: len, 'd :: len) cycle_in list \<Rightarrow> 'a dma \<Rightarrow> ('a word \<times> 'd word) list" where
  "writes [] s = []"
| "writes (i # is) s =
     (if count_word i s then [(current_address s, memory_word (frame_pixels i))] else [])
       @ writes is (cycle i s)"

text \<open>
  What an observer sees in each cycle of an execution: the state of the control FSM, the
  ready signal towards the pixel source and the valid signal towards the bus accessor.
\<close>

fun outputs :: "('a :: len, 'd :: len) cycle_in list \<Rightarrow> 'a dma \<Rightarrow> (fsm_state \<times> bool \<times> bool) list" where
  "outputs [] s = []"
| "outputs (i # is) s = (fsm s, frame_ready i s, sink_valid i s) # outputs is (cycle i s)"

subsection \<open>Notions used by the properties\<close>

text \<open>\<^verbatim>\<open>current_slot\<close> names one of the slots (it is declared with \<^verbatim>\<open>max=nslots\<close>).\<close>

definition wellformed :: "('a :: len) dma \<Rightarrow> bool" where
  "wellformed s = (current_slot s < length (slots s))"

text \<open>
  The spec's arbitration rule, in the spec's words: among all slots currently in Loaded
  state, the lowest-indexed one.
\<close>

definition lowest_loaded :: "('a :: len) slot list \<Rightarrow> nat option" where
  "lowest_loaded sls = find (\<lambda>n. slot_address_valid (sls ! n)) [0..<length sls]"

text \<open>
  The number of accepted words after which \<^verbatim>\<open>mwords_remaining\<close>, counting down from \<open>r\<close>,
  is seen equal to 1 by \<^verbatim>\<open>last_word\<close>: \<open>r\<close> itself, except that counting down from 0 wraps
  around first.
\<close>

definition words_until_last :: "('a :: len) word \<Rightarrow> nat" where
  "words_until_last r = (if r = 0 then 2 ^ LENGTH('a) else unat r)"

text \<open>Every cycle of the execution starts in \<^verbatim>\<open>TRANSFER_PIXELS\<close>.\<close>

fun in_transfer :: "('a :: len, 'd :: len) cycle_in list \<Rightarrow> 'a dma \<Rightarrow> bool" where
  "in_transfer [] s = True"
| "in_transfer (i # is) s = (fsm s = TRANSFER_PIXELS \<and> in_transfer is (cycle i s))"

text \<open>
  In every cycle of the execution in which the engine presents a write to the bus
  accessor, the current slot is Loaded.
\<close>

fun write_guarded :: "('a :: len, 'd :: len) cycle_in list \<Rightarrow> 'a dma \<Rightarrow> bool" where
  "write_guarded [] s = True"
| "write_guarded (i # is) s =
     ((sink_valid i s \<longrightarrow> slot_address_valid (slots s ! current_slot s))
      \<and> write_guarded is (cycle i s))"

text \<open>
  The consumer does not clear the Loaded bit of the current slot in a cycle after which
  the engine is in \<^verbatim>\<open>TRANSFER_PIXELS\<close>.
\<close>

fun keeps_armed :: "('a :: len, 'd :: len) cycle_in list \<Rightarrow> 'a dma \<Rightarrow> bool" where
  "keeps_armed [] s = True"
| "keeps_armed (i # is) s =
     ((fsm (cycle i s) = TRANSFER_PIXELS \<longrightarrow>
         (case csr i of
            Some (WrStatus n v) \<Rightarrow> n \<noteq> current_slot s \<or> bit v 0
          | _ \<Rightarrow> True))
      \<and> keeps_armed is (cycle i s))"

text \<open>The consumer does not write the status register of slot \<open>n\<close>.\<close>

fun writes_status :: "nat \<Rightarrow> 'w csr_op option \<Rightarrow> bool" where
  "writes_status n (Some (WrStatus m v)) = (m = n)"
| "writes_status n _ = False"

subsection \<open>Inputs of the scenarios\<close>

text \<open>
  A cycle in which the pixel source offers nothing, the bus accessor is ready, the write
  port is drained and the consumer is silent; a cycle with one consumer write; a cycle in
  which the pixel source offers a word.
\<close>

definition idle :: "('a :: len, 'd :: len) cycle_in" where
  "idle = \<lparr> frame_valid = False, frame_sof = False, frame_pixels = 0,
            sink_ready = True, wdata_valid = False, csr = None \<rparr>"

definition consumer :: "('a :: len) word csr_op \<Rightarrow> ('a, 'd :: len) cycle_in" where
  "consumer c = idle\<lparr>csr := Some c\<rparr>"

definition pixel :: "bool \<Rightarrow> ('d :: len) word \<Rightarrow> ('a :: len, 'd) cycle_in" where
  "pixel sof p = idle\<lparr>frame_valid := True, frame_sof := sof, frame_pixels := p\<rparr>"

text \<open>
  The consumer sets the frame size and arms slot 0 with base address \<open>base\<close>; then the
  start-of-frame word arrives and is held until the engine takes it.
\<close>

definition arm_and_start :: "('a :: len) word \<Rightarrow> 'a word \<Rightarrow> ('d :: len) word \<Rightarrow> ('a, 'd) cycle_in list" where
  "arm_and_start fsize base p =
     [consumer (WrFrameSize fsize), consumer (WrAddress 0 base), consumer (WrStatus 0 1),
      pixel True p]"

text \<open>
  A whole frame of four words into slot 0 at base address \<open>0x1000\<close>, while slot 2 is armed
  as well: the consumer arms slot 2 in the cycle of the first accepted word. The
  execution ends in \<^verbatim>\<open>EOF\<close>.
\<close>

definition frame_with_two_armed :: "(32, 32) cycle_in list" where
  "frame_with_two_armed =
     arm_and_start 4 0x1000 0xA @
     [(pixel True 0xA)\<lparr>csr := Some (WrStatus 2 1)\<rparr>, pixel False 0xB, pixel False 0xC,
      pixel False 0xD]"

text \<open>
  The scenario of the spec: three slots, a frame size of four words, slot 0 armed with base
  address \<open>0x1000\<close>, the words A, B, C, D (the first with start-of-frame), and one more
  cycle in which the write port is drained.
\<close>

definition four_word_frame :: "(32, 32) cycle_in list" where
  "four_word_frame =
     arm_and_start 4 0x1000 0xA @
     [pixel True 0xA, pixel False 0xB, pixel False 0xC, pixel False 0xD, idle]"

text \<open>
  The same frame with the frame size register left at 0, on a bus with 2-bit addresses and
  on one with 32-bit addresses.
\<close>

definition zero_size_frame_small :: "(2, 32) cycle_in list" where
  "zero_size_frame_small =
     arm_and_start 0 1 0xA @ [pixel True 0xA, pixel False 0xB, pixel False 0xC, pixel False 0xD]"

definition zero_size_frame :: "(32, 32) cycle_in list" where
  "zero_size_frame = arm_and_start 0 0x1000 0xA @ [pixel True 0xA, pixel False 0xB]"

section \<open>Properties\<close>

subsection \<open>Registers after one clock edge\<close>

lemma Array_sel_in_range: "i < length xs \<Longrightarrow> Array_sel xs i = xs ! i"
proof -
  assume "i < length xs"
  then have "min i (length xs - 1) = i" by arith
  then show ?thesis by (simp add: Array_sel_def)
qed

lemma sa_address_valid_wf:
  "wellformed s \<Longrightarrow> sa_address_valid s = slot_address_valid (slots s ! current_slot s)"
  by (simp add: wellformed_def sa_address_valid_def Array_sel_in_range)

lemma sa_address_wf:
  "wellformed s \<Longrightarrow> sa_address s = address_storage (slots s ! current_slot s)"
  by (simp add: wellformed_def sa_address_def Array_sel_in_range slot_address_def)

lemma DMA_sync_sel [simp]:
  "fsm (DMA_sync i s) = next_fsm i s"
  "frame_size (DMA_sync i s) = frame_size s"
  "current_slot (DMA_sync i s) =
     (if change_slot i s then arbitration (slots s) (current_slot s) else current_slot s)"
  "current_address (DMA_sync i s) =
     (if reset_words s then sa_address s
      else if count_word i s then current_address s + 1 else current_address s)"
  "mwords_remaining (DMA_sync i s) =
     (if reset_words s then frame_size s
      else if count_word i s then mwords_remaining s - 1 else mwords_remaining s)"
  "length (slots (DMA_sync i s)) = length (slots s)"
  by (simp_all add: DMA_sync_def)

lemma DMA_sync_slot:
  "n < length (slots s) \<Longrightarrow>
   slots (DMA_sync i s) ! n = slot_sync (slot_address_done i s n) (current_address s) (slots s ! n)"
  by (simp add: DMA_sync_def nth_enumerate_eq)

lemma csr_write_sel [simp]:
  "fsm (csr_write c s) = fsm s"
  "current_slot (csr_write c s) = current_slot s"
  "current_address (csr_write c s) = current_address s"
  "mwords_remaining (csr_write c s) = mwords_remaining s"
  "length (slots (csr_write c s)) = length (slots s)"
  by (induction c s rule: csr_write.induct; simp)+

lemma cycle_sel [simp]:
  "fsm (cycle i s) = next_fsm i s"
  "current_slot (cycle i s) =
     (if change_slot i s then arbitration (slots s) (current_slot s) else current_slot s)"
  "current_address (cycle i s) =
     (if reset_words s then sa_address s
      else if count_word i s then current_address s + 1 else current_address s)"
  "mwords_remaining (cycle i s) =
     (if reset_words s then frame_size s
      else if count_word i s then mwords_remaining s - 1 else mwords_remaining s)"
  "length (slots (cycle i s)) = length (slots s)"
  by (simp_all add: cycle_def)

subsection \<open>The arbitration statements select the lowest Loaded slot\<close>

lemma arb_stmt_pair [simp]:
  "arb_stmt c (n, sl) = (if slot_address_valid sl then n else c)"
  by (simp add: arb_stmt_def)

lemma arbitration_foldr:
  "arbitration sls cur = foldr (\<lambda>p c. arb_stmt c p) (enumerate 0 sls) cur"
  by (simp add: arbitration_def foldl_conv_foldr)

lemma arb_lowest:
  "n < length sls \<Longrightarrow> slot_address_valid (sls ! n) \<Longrightarrow>
   \<forall>m<n. \<not> slot_address_valid (sls ! m) \<Longrightarrow>
   foldr (\<lambda>p c. arb_stmt c p) (enumerate k sls) cur = k + n"
proof (induction sls arbitrary: k n)
  case Nil
  then show ?case by simp
next
  case (Cons x xs)
  show ?case
  proof (cases n)
    case 0
    with Cons.prems show ?thesis by simp
  next
    case (Suc m)
    with Cons.prems have "\<not> slot_address_valid x" by auto
    moreover have "foldr (\<lambda>p c. arb_stmt c p) (enumerate (Suc k) xs) cur = Suc k + m"
      using Cons.prems Suc by (intro Cons.IH) auto
    ultimately show ?thesis using Suc by simp
  qed
qed

lemma arb_none:
  "\<forall>m<length sls. \<not> slot_address_valid (sls ! m) \<Longrightarrow>
   foldr (\<lambda>p c. arb_stmt c p) (enumerate k sls) cur = cur"
proof (induction sls arbitrary: k)
  case Nil
  then show ?case by simp
next
  case (Cons x xs)
  from Cons.prems have "\<not> slot_address_valid x" by auto
  moreover have "\<forall>m<length xs. \<not> slot_address_valid (xs ! m)"
    using Cons.prems by auto
  ultimately show ?case using Cons.IH by simp
qed

lemma lowest_loaded_Some:
  "lowest_loaded sls = Some n \<longleftrightarrow>
   n < length sls \<and> slot_address_valid (sls ! n) \<and> (\<forall>m<n. \<not> slot_address_valid (sls ! m))"
proof
  assume "lowest_loaded sls = Some n"
  then obtain k where k: "k < length [0..<length sls]" "slot_address_valid (sls ! ([0..<length sls] ! k))"
    "n = [0..<length sls] ! k" "\<forall>j<k. \<not> slot_address_valid (sls ! ([0..<length sls] ! j))"
    unfolding lowest_loaded_def find_Some_iff by blast
  then have "k < length sls" "n = k" by simp_all
  with k show "n < length sls \<and> slot_address_valid (sls ! n) \<and> (\<forall>m<n. \<not> slot_address_valid (sls ! m))"
    by auto
next
  assume a: "n < length sls \<and> slot_address_valid (sls ! n) \<and> (\<forall>m<n. \<not> slot_address_valid (sls ! m))"
  then have "n < length [0..<length sls] \<and> slot_address_valid (sls ! ([0..<length sls] ! n)) \<and>
    n = [0..<length sls] ! n \<and> (\<forall>j<n. \<not> slot_address_valid (sls ! ([0..<length sls] ! j)))"
    by simp
  then show "lowest_loaded sls = Some n"
    unfolding lowest_loaded_def find_Some_iff by blast
qed

lemma lowest_loaded_None:
  "lowest_loaded sls = None \<longleftrightarrow> (\<forall>m<length sls. \<not> slot_address_valid (sls ! m))"
  by (auto simp: lowest_loaded_def find_None_iff)

lemma arbitration_lowest:
  "arbitration sls cur = (case lowest_loaded sls of Some n \<Rightarrow> n | None \<Rightarrow> cur)"
proof (cases "lowest_loaded sls")
  case None
  then have "\<forall>m<length sls. \<not> slot_address_valid (sls ! m)"
    by (simp add: lowest_loaded_None)
  then have "arbitration sls cur = cur"
    unfolding arbitration_foldr by (rule arb_none)
  with None show ?thesis by simp
next
  case (Some n)
  then have "n < length sls" "slot_address_valid (sls ! n)"
    "\<forall>m<n. \<not> slot_address_valid (sls ! m)"
    by (simp_all add: lowest_loaded_Some)
  then have "arbitration sls cur = 0 + n"
    unfolding arbitration_foldr by (rule arb_lowest)
  with Some show ?thesis by simp
qed

lemma arbitration_range:
  "cur < length sls \<Longrightarrow> arbitration sls cur < length sls"
proof (cases "lowest_loaded sls")
  case None
  assume "cur < length sls"
  with None show ?thesis by (simp add: arbitration_lowest)
next
  case (Some n)
  then have "n < length sls" by (simp add: lowest_loaded_Some)
  with Some show ?thesis by (simp add: arbitration_lowest)
qed

subsection \<open>Executions keep \<^verbatim>\<open>current_slot\<close> in range\<close>

lemma wellformed_DMA_sync: "wellformed s \<Longrightarrow> wellformed (DMA_sync i s)"
  by (simp add: wellformed_def arbitration_range)

lemma wellformed_cycle: "wellformed s \<Longrightarrow> wellformed (cycle i s)"
  by (simp add: wellformed_def arbitration_range)

lemma wellformed_run: "wellformed s \<Longrightarrow> wellformed (run ins s)"
  by (induction ins arbitrary: s) (simp_all add: wellformed_cycle)

lemma run_append: "run (xs @ ys) s = run ys (run xs s)"
  by (induction xs arbitrary: s) simp_all

lemma writes_append: "writes (xs @ ys) s = writes xs s @ writes ys (run xs s)"
  by (induction xs arbitrary: s) simp_all

subsection \<open>The word counter and one frame transfer\<close>

lemma words_until_last_pos: "0 < words_until_last r"
  by (simp add: words_until_last_def unat_gt_0)

lemma words_until_last_one: "words_until_last (1 :: ('a :: len) word) = 1"
  by (simp add: words_until_last_def)

lemma words_until_last_dec:
  fixes r :: "('a :: len) word"
  assumes "r \<noteq> 1"
  shows "words_until_last r = Suc (words_until_last (r - 1))"
proof (cases "r = 0")
  case True
  have "(- 1 :: 'a word) \<noteq> 0" by simp
  moreover have "unat (- 1 :: 'a word) = 2 ^ LENGTH('a) - 1" by (simp add: unsigned_minus_1_eq_mask mask_eq_exp_minus_1)
  ultimately show ?thesis using True by (simp add: words_until_last_def)
next
  case False
  then have "unat (r - 1) = unat r - 1" by (rule unat_minus_one)
  moreover have "r - 1 \<noteq> 0" using assms by simp
  moreover have "0 < unat r" using False by (simp add: unat_gt_0)
  ultimately show ?thesis using False by (simp add: words_until_last_def)
qed

lemma of_nat_words_until_last:
  "of_nat (words_until_last r) = (r :: ('a :: len) word)"
  by (simp add: words_until_last_def)

lemma next_fsm_transfer:
  "fsm s = TRANSFER_PIXELS \<Longrightarrow>
   next_fsm i s = (if count_word i s \<and> last_word s then EOF else TRANSFER_PIXELS)"
  by (simp add: next_fsm_def count_word_def)

lemma in_transfer_EOF_nil:
  "in_transfer ins s \<Longrightarrow> fsm s = EOF \<Longrightarrow> ins = []"
  by (cases ins) simp_all

lemma transfer_completed:
  "fsm s = TRANSFER_PIXELS \<Longrightarrow> in_transfer ins s \<Longrightarrow> fsm (run ins s) = EOF \<Longrightarrow>
   map fst (writes ins s) =
     map (\<lambda>j. current_address s + of_nat j) [0..<words_until_last (mwords_remaining s)]
   \<and> current_address (run ins s) = current_address s + mwords_remaining s"
proof (induction ins arbitrary: s)
  case Nil
  then show ?case by simp
next
  case (Cons i ins)
  let ?s' = "cycle i s"
  from Cons.prems have tr: "in_transfer ins ?s'" and fin: "fsm (run ins ?s') = EOF"
    by simp_all
  have nrw: "\<not> reset_words s" using Cons.prems(1) by (simp add: reset_words_def)
  show ?case
  proof (cases "count_word i s")
    case False
    then have "fsm ?s' = TRANSFER_PIXELS" "current_address ?s' = current_address s"
      "mwords_remaining ?s' = mwords_remaining s"
      using Cons.prems(1) nrw by (simp_all add: next_fsm_transfer)
    with Cons.IH [OF _ tr fin] False show ?thesis by (simp del: cycle_sel)
  next
    case cw: True
    show ?thesis
    proof (cases "last_word s")
      case True
      with cw Cons.prems(1) have "fsm ?s' = EOF" by (simp add: next_fsm_transfer)
      with tr have "ins = []" by (rule in_transfer_EOF_nil)
      moreover have "mwords_remaining s = 1" using True by (simp add: last_word_def)
      ultimately show ?thesis using cw nrw by (simp add: words_until_last_one)
    next
      case False
      then have ne: "mwords_remaining s \<noteq> 1" by (simp add: last_word_def)
      have st: "fsm ?s' = TRANSFER_PIXELS" "current_address ?s' = current_address s + 1"
        "mwords_remaining ?s' = mwords_remaining s - 1"
        using Cons.prems(1) nrw cw False by (simp_all add: next_fsm_transfer)
      from Cons.IH [OF st(1) tr fin, unfolded st]
      have ih: "map fst (writes ins ?s') =
          map (\<lambda>j. current_address s + 1 + of_nat j) [0..<words_until_last (mwords_remaining s - 1)]"
        and fa: "current_address (run ins ?s') = current_address s + 1 + (mwords_remaining s - 1)"
        by simp_all
      have "map fst (writes (i # ins) s) =
          current_address s # map (\<lambda>j. current_address s + of_nat (Suc j))
             [0..<words_until_last (mwords_remaining s - 1)]"
        using cw ih by (simp add: add.assoc)
      also have "\<dots> = map (\<lambda>j. current_address s + of_nat j)
             [0..<Suc (words_until_last (mwords_remaining s - 1))]"
        by (simp only: map_upt_Suc) simp
      finally show ?thesis using fa by (simp add: words_until_last_dec [OF ne])
    qed
  qed
qed

lemma transfer_completes:
  "fsm s = TRANSFER_PIXELS \<Longrightarrow> \<forall>i\<in>set ins. frame_valid i \<and> sink_ready i \<Longrightarrow>
   length ins = words_until_last (mwords_remaining s) \<Longrightarrow>
   in_transfer ins s \<and> fsm (run ins s) = EOF"
proof (induction ins arbitrary: s)
  case Nil
  then show ?case using words_until_last_pos [of "mwords_remaining s"] by simp
next
  case (Cons i ins)
  let ?s' = "cycle i s"
  have cw: "count_word i s" using Cons.prems by (simp add: count_word_def)
  have nrw: "\<not> reset_words s" using Cons.prems(1) by (simp add: reset_words_def)
  show ?case
  proof (cases "last_word s")
    case True
    then have "mwords_remaining s = 1" by (simp add: last_word_def)
    with Cons.prems(3) have "ins = []" by (simp add: words_until_last_one)
    with True cw Cons.prems(1) show ?thesis by (simp add: next_fsm_transfer)
  next
    case False
    then have ne: "mwords_remaining s \<noteq> 1" by (simp add: last_word_def)
    have st: "fsm ?s' = TRANSFER_PIXELS" "mwords_remaining ?s' = mwords_remaining s - 1"
      using Cons.prems(1) nrw cw False by (simp_all add: next_fsm_transfer)
    have "length ins = words_until_last (mwords_remaining ?s')"
      using Cons.prems(3) words_until_last_dec [OF ne] unfolding st by simp
    with Cons.IH [OF st(1)] Cons.prems(2) have "in_transfer ins ?s' \<and> fsm (run ins ?s') = EOF"
      by (simp del: cycle_sel)
    with Cons.prems(1) show ?thesis by simp
  qed
qed

lemma start_of_transfer:
  "fsm s = WAIT_SOF \<Longrightarrow> sa_address_valid s \<Longrightarrow> frame_sof i \<Longrightarrow> frame_valid i \<Longrightarrow>
   fsm (cycle i s) = TRANSFER_PIXELS \<and> current_address (cycle i s) = sa_address s
   \<and> mwords_remaining (cycle i s) = frame_size s \<and> \<not> count_word i s
   \<and> current_slot (cycle i s) = current_slot s"
  by (simp add: next_fsm_def reset_words_def count_word_def change_slot_def address_done_def)

lemma eof_wait:
  "fsm s = EOF \<Longrightarrow> \<forall>w\<in>set ws. wdata_valid w \<Longrightarrow>
   fsm (run ws s) = EOF \<and> current_address (run ws s) = current_address s \<and> writes ws s = []"
proof (induction ws arbitrary: s)
  case Nil
  then show ?case by simp
next
  case (Cons w ws)
  then have "fsm (cycle w s) = EOF" "current_address (cycle w s) = current_address s"
    "\<not> count_word w s"
    by (simp_all add: next_fsm_def reset_words_def count_word_def)
  with Cons.IH [of "cycle w s"] Cons.prems(2) show ?case by simp
qed

lemma frame_addresses:
  assumes "fsm s = WAIT_SOF" "sa_address_valid s" "frame_sof i" "frame_valid i"
    and "in_transfer ins (cycle i s)" "fsm (run (i # ins) s) = EOF"
  shows "map fst (writes (i # ins) s) =
           map (\<lambda>j. sa_address s + of_nat j) [0..<words_until_last (frame_size s)]"
    and "current_address (run (i # ins) s) = sa_address s + frame_size s"
proof -
  note st = start_of_transfer [OF assms(1-4)]
  from assms(6) have "fsm (run ins (cycle i s)) = EOF" by simp
  with transfer_completed [of "cycle i s" ins] st assms(5)
  have "map fst (writes ins (cycle i s)) =
      map (\<lambda>j. sa_address s + of_nat j) [0..<words_until_last (frame_size s)]
    \<and> current_address (run ins (cycle i s)) = sa_address s + frame_size s"
    by simp
  with st show "map fst (writes (i # ins) s) =
           map (\<lambda>j. sa_address s + of_nat j) [0..<words_until_last (frame_size s)]"
    and "current_address (run (i # ins) s) = sa_address s + frame_size s"
    by simp_all
qed

subsection \<open>The slot registers across one clock edge\<close>

lemma slot_sync_simps [simp]:
  "slot_sync False r sl = sl"
  "status_storage (slot_sync True r sl) = 2"
  "address_storage (slot_sync True r sl) = r"
  by (simp_all add: slot_sync_def)

lemma slots_kept: "\<not> address_done i s \<Longrightarrow> slots (DMA_sync i s) = slots s"
  by (rule nth_equalityI) (simp_all add: DMA_sync_slot slot_address_done_def)

lemma other_slot_kept:
  "n < length (slots s) \<Longrightarrow> n \<noteq> current_slot s \<Longrightarrow> slots (DMA_sync i s) ! n = slots s ! n"
  by (auto simp: DMA_sync_slot slot_address_done_def)

lemma current_slot_done:
  "wellformed s \<Longrightarrow> address_done i s \<Longrightarrow>
   slots (DMA_sync i s) ! current_slot s =
     \<lparr>status_storage = 2, address_storage = current_address s\<rparr>"
  by (simp add: wellformed_def DMA_sync_slot slot_address_done_def slot_sync_def)

lemma csr_write_status:
  "n < length (slots s) \<Longrightarrow>
   status_storage (slots (csr_write c s) ! n) =
     (case c of Some (WrStatus m v) \<Rightarrow> if m = n then v else status_storage (slots s ! n)
      | _ \<Rightarrow> status_storage (slots s ! n))"
  by (induction c s rule: csr_write.induct) (simp_all add: nth_list_update)

lemma status_two_not_valid:
  "status_storage sl = 2 \<Longrightarrow> \<not> slot_address_valid sl"
  by (simp add: slot_address_valid_def)

lemma csr_write_status_other:
  "n < length (slots s) \<Longrightarrow> \<not> writes_status n c \<Longrightarrow>
   status_storage (slots (csr_write c s) ! n) = status_storage (slots s ! n)"
  by (induction c s rule: csr_write.induct) (simp_all add: nth_list_update)

lemma pending_kept_cycle:
  assumes "n < length (slots s)" "status_storage (slots s ! n) = 2 \<or> slot_address_done i s n"
    and "\<not> writes_status n (csr i)"
  shows "status_storage (slots (cycle i s) ! n) = 2"
proof -
  have "status_storage (slots (DMA_sync i s) ! n) = 2"
    using assms(1,2) by (cases "slot_address_done i s n") (auto simp: DMA_sync_slot)
  moreover have "status_storage (slots (cycle i s) ! n) = status_storage (slots (DMA_sync i s) ! n)"
    using assms(1,3) unfolding cycle_def by (simp add: csr_write_status_other)
  ultimately show ?thesis by simp
qed

lemma pending_kept_run:
  "n < length (slots s) \<Longrightarrow> status_storage (slots s ! n) = 2 \<Longrightarrow>
   \<forall>j\<in>set ins. \<not> writes_status n (csr j) \<Longrightarrow>
   status_storage (slots (run ins s) ! n) = 2"
proof (induction ins arbitrary: s)
  case Nil
  then show ?case by simp
next
  case (Cons i ins)
  then have "status_storage (slots (cycle i s) ! n) = 2"
    by (intro pending_kept_cycle) simp_all
  with Cons show ?case by simp
qed

lemma arbitration_skips:
  assumes "n < length sls" "\<not> slot_address_valid (sls ! n)" "c \<noteq> n"
  shows "arbitration sls c \<noteq> n"
proof (cases "lowest_loaded sls")
  case None
  with assms(3) show ?thesis by (simp add: arbitration_lowest)
next
  case (Some m)
  then have "slot_address_valid (sls ! m)" by (simp add: lowest_loaded_Some)
  with assms(2) have "m \<noteq> n" by auto
  with Some show ?thesis by (simp add: arbitration_lowest)
qed

subsection \<open>Arbitration\<close>

text \<open>
  C2. Whenever arbitration runs (\<^verbatim>\<open>change_slot\<close> is high at the clock edge), the slot that
  becomes current is the lowest-indexed slot among those whose status is Loaded at that
  edge: it is Loaded, and no slot with a smaller index is. In the scenario of the spec,
  with slots 0 and 2 Loaded and slot 1 Empty the engine selects slot 0, and once slot 0 is
  Pending the next arbitration, with only slot 2 Loaded, selects slot 2.
\<close>

theorem arbitration_selects_lowest_loaded:
  "change_slot i s \<Longrightarrow> lowest_loaded (slots s) = Some n \<Longrightarrow>
   current_slot (cycle i s) = n \<and> n < length (slots s) \<and> slot_address_valid (slots s ! n)
   \<and> (\<forall>m<n. \<not> slot_address_valid (slots s ! m))"
  by (simp add: arbitration_lowest lowest_loaded_Some [symmetric])

theorem arbitration_selects_lowest_loaded_witness:
  "map status_storage (slots (run frame_with_two_armed (DMA_reset 3))) = [1, 0, 1]
   \<and> change_slot (idle :: (32, 32) cycle_in) (run frame_with_two_armed (DMA_reset 3))
   \<and> current_slot (cycle (idle :: (32, 32) cycle_in) (run frame_with_two_armed (DMA_reset 3))) = 0
   \<and> map status_storage (slots (run (frame_with_two_armed @ [idle]) (DMA_reset 3))) = [2, 0, 1]
   \<and> change_slot (idle :: (32, 32) cycle_in) (run (frame_with_two_armed @ [idle]) (DMA_reset 3))
   \<and> current_slot (cycle (idle :: (32, 32) cycle_in)
        (run (frame_with_two_armed @ [idle]) (DMA_reset 3))) = 2"
proof -
  let ?i = "idle :: (32, 32) cycle_in"
  let ?s = "run frame_with_two_armed (DMA_reset 3) :: 32 dma"
  let ?t = "run (frame_with_two_armed @ [idle]) (DMA_reset 3) :: 32 dma"
  have s: "map status_storage (slots ?s) = [1, 0, 1]" by code_simp
  have t: "map status_storage (slots ?t) = [2, 0, 1]" by code_simp
  have cs: "change_slot ?i ?s" by code_simp
  have ct: "change_slot ?i ?t" by code_simp
  have ls: "lowest_loaded (slots ?s) = Some 0" by code_simp
  have lt: "lowest_loaded (slots ?t) = Some 2" by code_simp
  from arbitration_selects_lowest_loaded [OF cs ls] arbitration_selects_lowest_loaded [OF ct lt]
    s t cs ct
  show ?thesis by simp
qed

subsection \<open>Completion of a transfer\<close>

text \<open>
  C5. No slot goes to Pending while the write port still reports data to be written:
  whenever the clock edge of the design changes the status register of a slot, the engine
  is in \<^verbatim>\<open>EOF\<close>, \<^verbatim>\<open>dram_port.wdata.valid\<close> is low in that cycle, and the new status is
  Pending (2).
\<close>

theorem pending_only_when_drained:
  "n < length (slots s) \<Longrightarrow>
   status_storage (slots (DMA_sync i s) ! n) \<noteq> status_storage (slots s ! n) \<Longrightarrow>
   fsm s = EOF \<and> \<not> wdata_valid i \<and> status_storage (slots (DMA_sync i s) ! n) = 2"
  by (cases "slot_address_done i s n")
     (auto simp: DMA_sync_slot slot_address_done_def address_done_def)

theorem pending_only_when_drained_witness:
  "(0 :: nat) < length (slots (run frame_with_two_armed (DMA_reset 3) :: 32 dma))
   \<and> status_storage (slots (DMA_sync (idle :: (32, 32) cycle_in)
        (run frame_with_two_armed (DMA_reset 3))) ! 0)
      \<noteq> status_storage (slots (run frame_with_two_armed (DMA_reset 3) :: 32 dma) ! 0)
   \<and> fsm (run frame_with_two_armed (DMA_reset 3) :: 32 dma) = EOF
   \<and> \<not> wdata_valid (idle :: (32, 32) cycle_in)
   \<and> status_storage (slots (DMA_sync (idle :: (32, 32) cycle_in)
        (run frame_with_two_armed (DMA_reset 3))) ! 0) = 2"
proof -
  let ?i = "idle :: (32, 32) cycle_in"
  let ?s = "run frame_with_two_armed (DMA_reset 3) :: 32 dma"
  have a: "0 < length (slots ?s)" by code_simp
  have b: "status_storage (slots (DMA_sync ?i ?s) ! 0) \<noteq> status_storage (slots ?s ! 0)"
    by code_simp
  from pending_only_when_drained [OF a b] a b show ?thesis by simp
qed

text \<open>
  C6. On completion of a transfer (\<^verbatim>\<open>address_done\<close>) the current slot, and no other,
  goes to Pending and receives \<^verbatim>\<open>address_reached\<close> (the value of \<^verbatim>\<open>current_address\<close>) in
  its address register; status and address of every other slot are left as they were.
\<close>

theorem completion_writes_current_slot_only:
  "wellformed s \<Longrightarrow> address_done i s \<Longrightarrow>
   length (slots (DMA_sync i s)) = length (slots s)
   \<and> slots (DMA_sync i s) ! current_slot s =
       \<lparr>status_storage = 2, address_storage = current_address s\<rparr>
   \<and> (\<forall>n<length (slots s). n \<noteq> current_slot s \<longrightarrow> slots (DMA_sync i s) ! n = slots s ! n)"
  by (simp add: current_slot_done other_slot_kept)

theorem completion_writes_current_slot_only_witness:
  "wellformed (run frame_with_two_armed (DMA_reset 3) :: 32 dma)
   \<and> address_done (idle :: (32, 32) cycle_in) (run frame_with_two_armed (DMA_reset 3))
   \<and> current_slot (run frame_with_two_armed (DMA_reset 3) :: 32 dma) = 0
   \<and> slots (run frame_with_two_armed (DMA_reset 3) :: 32 dma) ! 0 =
       \<lparr>status_storage = 1, address_storage = 0x1000\<rparr>
   \<and> slots (DMA_sync (idle :: (32, 32) cycle_in) (run frame_with_two_armed (DMA_reset 3))) ! 0 =
       \<lparr>status_storage = 2, address_storage = 0x1004\<rparr>
   \<and> slots (DMA_sync (idle :: (32, 32) cycle_in) (run frame_with_two_armed (DMA_reset 3))) ! 2 =
       slots (run frame_with_two_armed (DMA_reset 3) :: 32 dma) ! 2"
proof -
  let ?i = "idle :: (32, 32) cycle_in"
  let ?s = "run frame_with_two_armed (DMA_reset 3) :: 32 dma"
  have a: "wellformed ?s" by code_simp
  have b: "address_done ?i ?s" by code_simp
  have c: "slots ?s ! 0 = \<lparr>status_storage = 1, address_storage = 0x1000\<rparr>" by code_simp
  have d: "current_slot ?s = 0" "current_address ?s = 0x1004" by code_simp+
  have e: "2 < length (slots ?s)" by code_simp
  from completion_writes_current_slot_only [OF a b]
  have "slots (DMA_sync ?i ?s) ! 0 = \<lparr>status_storage = 2, address_storage = 0x1004\<rparr>"
    and "\<forall>n<length (slots ?s). n \<noteq> 0 \<longrightarrow> slots (DMA_sync ?i ?s) ! n = slots ?s ! n"
    unfolding d by simp_all
  with a b c d e show ?thesis by simp
qed

text \<open>
  C10. When \<^verbatim>\<open>address_done\<close> of a slot fires, the write from the design replaces the whole
  2-bit status by the value 2: the Pending bit is set and the Loaded bit is cleared. From
  that clock edge on, and for as long as the consumer does not write the status register
  of the slot, the status stays 2, the slot is not \<^verbatim>\<open>address_valid\<close>, and the arbitration
  statements do not assign its index to \<^verbatim>\<open>current_slot\<close>.
\<close>

theorem completion_clears_loaded:
  assumes "n < length (slots s)" "slot_address_done i s n"
    and "\<forall>j\<in>set (i # ins). \<not> writes_status n (csr j)"
  shows "status_storage (slots (DMA_sync i s) ! n) = 2
    \<and> bit (status_storage (slots (DMA_sync i s) ! n)) 1
    \<and> \<not> bit (status_storage (slots (DMA_sync i s) ! n)) 0
    \<and> status_storage (slots (run (i # ins) s) ! n) = 2
    \<and> \<not> slot_address_valid (slots (run (i # ins) s) ! n)
    \<and> (\<forall>c. c \<noteq> n \<longrightarrow> arbitration (slots (run (i # ins) s)) c \<noteq> n)"
proof -
  have d: "status_storage (slots (DMA_sync i s) ! n) = 2"
    using assms(1,2) by (simp add: DMA_sync_slot)
  have b: "bit (status_storage (slots (DMA_sync i s) ! n)) 1"
    "\<not> bit (status_storage (slots (DMA_sync i s) ! n)) 0"
    unfolding d by simp_all
  have "status_storage (slots (cycle i s) ! n) = 2"
    using assms by (intro pending_kept_cycle) simp_all
  then have r: "status_storage (slots (run (i # ins) s) ! n) = 2"
    using assms(1,3) pending_kept_run [of n "cycle i s" ins] by simp
  then have v: "\<not> slot_address_valid (slots (run (i # ins) s) ! n)"
    by (rule status_two_not_valid)
  have "n < length (slots (run (i # ins) s))"
    using assms(1) by (induction ins arbitrary: s i) simp_all
  then have "\<forall>c. c \<noteq> n \<longrightarrow> arbitration (slots (run (i # ins) s)) c \<noteq> n"
    using v by (simp add: arbitration_skips)
  with d b r v show ?thesis by simp
qed

theorem completion_clears_loaded_witness:
  "(0 :: nat) < length (slots (run frame_with_two_armed (DMA_reset 3) :: 32 dma))
   \<and> slot_address_done (idle :: (32, 32) cycle_in) (run frame_with_two_armed (DMA_reset 3)) 0
   \<and> list_all (\<lambda>j. \<not> writes_status 0 (csr j)) [idle, pixel True 0xE, idle :: (32, 32) cycle_in]
   \<and> status_storage (slots (run frame_with_two_armed (DMA_reset 3) :: 32 dma) ! 0) = 1
   \<and> status_storage (slots (DMA_sync (idle :: (32, 32) cycle_in)
         (run frame_with_two_armed (DMA_reset 3))) ! 0) = 2
   \<and> status_storage (slots (run [idle, pixel True 0xE, idle :: (32, 32) cycle_in]
         (run frame_with_two_armed (DMA_reset 3))) ! 0) = 2
   \<and> \<not> slot_address_valid (slots (run [idle, pixel True 0xE, idle :: (32, 32) cycle_in]
         (run frame_with_two_armed (DMA_reset 3))) ! 0)
   \<and> current_slot (run [idle, pixel True 0xE, idle :: (32, 32) cycle_in]
         (run frame_with_two_armed (DMA_reset 3))) = 2"
proof -
  let ?i = "idle :: (32, 32) cycle_in"
  let ?s = "run frame_with_two_armed (DMA_reset 3) :: 32 dma"
  have a: "0 < length (slots ?s)" by code_simp
  have b: "slot_address_done ?i ?s 0" by code_simp
  have c: "\<forall>j\<in>set (?i # [pixel True 0xE, ?i]). \<not> writes_status 0 (csr j)" by code_simp
  have d: "status_storage (slots ?s ! 0) = 1" by code_simp
  have e: "current_slot (run [?i, pixel True 0xE, ?i] ?s) = 2" by code_simp
  have f: "list_all (\<lambda>j. \<not> writes_status 0 (csr j)) [?i, pixel True 0xE, ?i]" by code_simp
  from completion_clears_loaded [OF a b c] a b d e f show ?thesis by simp
qed

subsection \<open>A frame that finds no slot Loaded\<close>

lemma wait_sof_cycle:
  "fsm s = WAIT_SOF \<Longrightarrow> \<not> sa_address_valid s \<or> \<not> frame_sof i \<Longrightarrow>
   fsm (cycle i s) = WAIT_SOF \<and> frame_ready i s \<and> \<not> sink_valid i s \<and> \<not> count_word i s"
  by (auto simp: next_fsm_def frame_ready_def sink_valid_def count_word_def)

lemma rest_of_dropped_frame:
  "fsm s = WAIT_SOF \<Longrightarrow> \<forall>j\<in>set rest. \<not> frame_sof j \<Longrightarrow>
   outputs rest s = replicate (length rest) (WAIT_SOF, True, False)
   \<and> writes rest s = [] \<and> fsm (run rest s) = WAIT_SOF"
proof (induction rest arbitrary: s)
  case Nil
  then show ?case by simp
next
  case (Cons j rest)
  then have "\<not> sa_address_valid s \<or> \<not> frame_sof j" by simp
  from wait_sof_cycle [OF Cons.prems(1) this] Cons.IH [of "cycle j s"] Cons.prems
  show ?case by (simp del: cycle_sel)
qed

text \<open>
  C8. If no slot is Loaded when a start-of-frame word arrives at the engine waiting in
  \<^verbatim>\<open>WAIT_SOF\<close>, then in every cycle of that frame (the start-of-frame word and all words
  up to the next start-of-frame, whatever the consumer does meanwhile) the engine is in
  \<^verbatim>\<open>WAIT_SOF\<close>, \<^verbatim>\<open>frame.ready\<close> is high and no write is presented to the bus accessor; no
  write is accepted, and the engine is still in \<^verbatim>\<open>WAIT_SOF\<close> when the next
  start-of-frame comes.
\<close>

theorem frame_without_loaded_slot_is_dropped:
  assumes "wellformed s" "fsm s = WAIT_SOF"
    and "\<forall>n<length (slots s). \<not> slot_address_valid (slots s ! n)"
    and "frame_sof i" "\<forall>j\<in>set rest. \<not> frame_sof j"
  shows "outputs (i # rest) s = replicate (Suc (length rest)) (WAIT_SOF, True, False)
    \<and> writes (i # rest) s = [] \<and> fsm (run (i # rest) s) = WAIT_SOF"
proof -
  have "\<not> sa_address_valid s"
    using assms(1,3) by (simp add: sa_address_valid_wf wellformed_def)
  then have "\<not> sa_address_valid s \<or> \<not> frame_sof i" by simp
  from wait_sof_cycle [OF assms(2) this] rest_of_dropped_frame [of "cycle i s" rest] assms(2,5)
  show ?thesis by (simp del: cycle_sel)
qed

theorem frame_without_loaded_slot_is_dropped_witness:
  "wellformed (DMA_reset 3 :: 32 dma) \<and> fsm (DMA_reset 3 :: 32 dma) = WAIT_SOF
   \<and> list_all (\<lambda>sl. \<not> slot_address_valid sl) (slots (DMA_reset 3 :: 32 dma))
   \<and> frame_sof (pixel True 0xA :: (32, 32) cycle_in)
   \<and> list_all (\<lambda>j. \<not> frame_sof j)
        [pixel False 0xB, consumer (WrStatus 0 1), pixel False 0xC :: (32, 32) cycle_in]
   \<and> outputs [pixel True 0xA, pixel False 0xB, consumer (WrStatus 0 1),
               pixel False 0xC :: (32, 32) cycle_in] (DMA_reset 3)
      = [(WAIT_SOF, True, False), (WAIT_SOF, True, False), (WAIT_SOF, True, False),
         (WAIT_SOF, True, False)]
   \<and> writes [pixel True 0xA, pixel False 0xB, consumer (WrStatus 0 1),
              pixel False 0xC :: (32, 32) cycle_in] (DMA_reset 3) = []
   \<and> fsm (run [pixel True 0xA, pixel False 0xB, consumer (WrStatus 0 1),
                pixel False 0xC :: (32, 32) cycle_in] (DMA_reset 3)) = WAIT_SOF"
proof -
  let ?s = "DMA_reset 3 :: 32 dma"
  let ?i = "pixel True 0xA :: (32, 32) cycle_in"
  let ?rest = "[pixel False 0xB, consumer (WrStatus 0 1), pixel False 0xC :: (32, 32) cycle_in]"
  have a: "wellformed ?s" by code_simp
  have b: "fsm ?s = WAIT_SOF" by code_simp
  have c': "list_all (\<lambda>sl. \<not> slot_address_valid sl) (slots ?s)" by code_simp
  then have c: "\<forall>n<length (slots ?s). \<not> slot_address_valid (slots ?s ! n)"
    by (simp add: list_all_length)
  have d: "frame_sof ?i" by code_simp
  have e': "list_all (\<lambda>j. \<not> frame_sof j) ?rest" by code_simp
  then have e: "\<forall>j\<in>set ?rest. \<not> frame_sof j" by (simp only: list_all_iff)
  from frame_without_loaded_slot_is_dropped [OF a b c d e] a b c' d e'
  show ?thesis by (simp add: numeral_3_eq_3)
qed

subsection \<open>Writes and the status of the current slot\<close>

lemma csr_write_valid:
  "n < length (slots s) \<Longrightarrow>
   slot_address_valid (slots (csr_write c s) ! n) =
     (case c of
        Some (WrStatus m v) \<Rightarrow> if m = n then bit v 0 else slot_address_valid (slots s ! n)
      | _ \<Rightarrow> slot_address_valid (slots s ! n))"
  by (induction c s rule: csr_write.induct)
     (simp_all add: nth_list_update slot_address_valid_def)

lemma next_fsm_transfer_cases:
  "next_fsm i s = TRANSFER_PIXELS \<Longrightarrow>
   fsm s = TRANSFER_PIXELS \<or> (fsm s = WAIT_SOF \<and> sa_address_valid s)"
  by (cases "fsm s") (auto simp: next_fsm_def split: if_splits)

lemma loaded_in_transfer_cycle:
  assumes wf: "wellformed s"
    and inv: "fsm s = TRANSFER_PIXELS \<longrightarrow> sa_address_valid s"
    and nxt: "fsm (cycle i s) = TRANSFER_PIXELS"
    and arm: "case csr i of Some (WrStatus n v) \<Rightarrow> n \<noteq> current_slot s \<or> bit v 0 | _ \<Rightarrow> True"
  shows "sa_address_valid (cycle i s)"
proof -
  from nxt have "next_fsm i s = TRANSFER_PIXELS" by simp
  then have v: "sa_address_valid s" and ne: "fsm s \<noteq> EOF"
    using inv next_fsm_transfer_cases [of i s] by auto
  then have nd: "\<not> address_done i s" and nc: "\<not> change_slot i s"
    by (simp_all add: address_done_def change_slot_def)
  have cur: "current_slot (cycle i s) = current_slot s" using nc by simp
  have lt: "current_slot s < length (slots (DMA_sync i s))"
    using wf by (simp add: wellformed_def)
  have "slot_address_valid (slots s ! current_slot s)"
    using v wf by (simp add: sa_address_valid_wf)
  then have "slot_address_valid (slots (DMA_sync i s) ! current_slot s)"
    using nd by (simp add: slots_kept)
  then have "slot_address_valid (slots (cycle i s) ! current_slot s)"
    using arm unfolding cycle_def csr_write_valid [OF lt]
    by (auto split: option.splits csr_op.splits)
  then show ?thesis
    using wellformed_cycle [OF wf, of i] cur by (simp add: sa_address_valid_wf)
qed

lemma write_guarded_invariant:
  "wellformed s \<Longrightarrow> fsm s = TRANSFER_PIXELS \<longrightarrow> sa_address_valid s \<Longrightarrow>
   keeps_armed ins s \<Longrightarrow> write_guarded ins s"
proof (induction ins arbitrary: s)
  case Nil
  then show ?case by simp
next
  case (Cons i ins)
  have here: "sink_valid i s \<longrightarrow> slot_address_valid (slots s ! current_slot s)"
    using Cons.prems(1,2) by (simp add: sink_valid_def sa_address_valid_wf)
  have "fsm (cycle i s) = TRANSFER_PIXELS \<longrightarrow> sa_address_valid (cycle i s)"
  proof
    assume t: "fsm (cycle i s) = TRANSFER_PIXELS"
    with Cons.prems(3)
    have "case csr i of Some (WrStatus n v) \<Rightarrow> n \<noteq> current_slot s \<or> bit v 0 | _ \<Rightarrow> True"
      by (simp del: cycle_sel)
    with Cons.prems(1,2) t show "sa_address_valid (cycle i s)"
      by (intro loaded_in_transfer_cycle)
  qed
  moreover have "wellformed (cycle i s)" using Cons.prems(1) by (rule wellformed_cycle)
  moreover have "keeps_armed ins (cycle i s)" using Cons.prems(3) by (simp del: cycle_sel)
  ultimately have "write_guarded ins (cycle i s)" by (intro Cons.IH)
  with here show ?case by (simp del: cycle_sel)
qed

lemma wellformed_reset: "0 < nslots \<Longrightarrow> wellformed (DMA_reset nslots)"
  by (simp add: wellformed_def DMA_reset_def)

text \<open>
  C1 as stated: in every execution from reset, whatever the consumer and the pixel source
  do, the current slot is Loaded in each cycle in which a write is presented. It fails:
  the engine never looks at the slot status after the transfer has started, so a
  consumer that disarms the slot during the transfer (here in the cycle of the first
  accepted word) sees writes go on into the buffer of an Empty slot.
\<close>

theorem write_into_disarmed_slot:
  "\<not> write_guarded
       (arm_and_start 4 0x1000 0xA @
        [(pixel True 0xA)\<lparr>csr := Some (WrStatus 0 0)\<rparr>, pixel False 0xB :: (32, 32) cycle_in])
       (DMA_reset 3)"
  by code_simp

text \<open>
  C1 as amended: in every execution from reset in which the consumer does not clear the
  Loaded bit of the current slot at a clock edge that starts or continues a transfer, the
  current slot is Loaded in each cycle in which the engine presents a write to the bus
  accessor.
\<close>

theorem writes_only_into_loaded_slot:
  "0 < nslots \<Longrightarrow> keeps_armed ins (DMA_reset nslots) \<Longrightarrow> write_guarded ins (DMA_reset nslots)"
  by (rule write_guarded_invariant) (simp_all add: wellformed_reset, simp add: DMA_reset_def)

theorem writes_only_into_loaded_slot_witness:
  "(0 :: nat) < 3
   \<and> keeps_armed
       (arm_and_start 4 0x1000 0xA @
        [(pixel True 0xA)\<lparr>csr := Some (WrStatus 1 0)\<rparr>, pixel False 0xB, pixel False 0xC,
         (pixel False 0xD)\<lparr>csr := Some (WrStatus 0 0)\<rparr>, idle :: (32, 32) cycle_in])
       (DMA_reset 3)
   \<and> write_guarded
       (arm_and_start 4 0x1000 0xA @
        [(pixel True 0xA)\<lparr>csr := Some (WrStatus 1 0)\<rparr>, pixel False 0xB, pixel False 0xC,
         (pixel False 0xD)\<lparr>csr := Some (WrStatus 0 0)\<rparr>, idle :: (32, 32) cycle_in])
       (DMA_reset 3)
   \<and> map fst (writes
       (arm_and_start 4 0x1000 0xA @
        [(pixel True 0xA)\<lparr>csr := Some (WrStatus 1 0)\<rparr>, pixel False 0xB, pixel False 0xC,
         (pixel False 0xD)\<lparr>csr := Some (WrStatus 0 0)\<rparr>, idle :: (32, 32) cycle_in])
       (DMA_reset 3)) = [0x1000, 0x1001, 0x1002, 0x1003]"
proof -
  let ?ins = "arm_and_start 4 0x1000 0xA @
        [(pixel True 0xA)\<lparr>csr := Some (WrStatus 1 0)\<rparr>, pixel False 0xB, pixel False 0xC,
         (pixel False 0xD)\<lparr>csr := Some (WrStatus 0 0)\<rparr>, idle :: (32, 32) cycle_in]"
  have a: "(0 :: nat) < 3" by simp
  have b: "keeps_armed ?ins (DMA_reset 3)" by code_simp
  have c: "map fst (writes ?ins (DMA_reset 3)) = [0x1000, 0x1001, 0x1002, 0x1003]" by code_simp
  from writes_only_into_loaded_slot [OF a b] a b c show ?thesis by simp
qed

subsection \<open>The published address\<close>

lemma last_frame_address:
  fixes a :: "('a :: len) word"
  shows "last (map (\<lambda>j. a + of_nat j) [0..<words_until_last r]) + 1 = a + (r :: 'a word)"
proof -
  have pos: "0 < words_until_last r" by (rule words_until_last_pos)
  then have "last (map (\<lambda>j. a + of_nat j) [0..<words_until_last r])
      = a + of_nat (words_until_last r - 1)"
    by (simp add: last_map)
  then have "last (map (\<lambda>j. a + of_nat j) [0..<words_until_last r]) + 1
      = a + of_nat (Suc (words_until_last r - 1))"
    by simp
  also have "\<dots> = a + of_nat (words_until_last r)" using pos by simp
  finally show ?thesis by (simp add: of_nat_words_until_last)
qed

text \<open>
  C7 as stated, in the scenario of the spec: the four words are written to \<open>0x1000\<close> \<dots>
  \<open>0x1003\<close> and slot 0 becomes Pending, but the address published in slot 0 is \<open>0x1004\<close>,
  not the last address written.
\<close>

theorem published_address_in_scenario:
  "writes four_word_frame (DMA_reset 3) =
     [(0x1000, 0xA), (0x1001, 0xB), (0x1002, 0xC), (0x1003, 0xD)]
   \<and> status_storage (slots (run four_word_frame (DMA_reset 3)) ! 0) = 2
   \<and> address_storage (slots (run four_word_frame (DMA_reset 3)) ! 0) = 0x1004
   \<and> address_storage (slots (run four_word_frame (DMA_reset 3)) ! 0)
       \<noteq> fst (last (writes four_word_frame (DMA_reset 3)))"
  by code_simp

text \<open>
  C7 as amended: for every completed frame (a start in \<^verbatim>\<open>WAIT_SOF\<close>, cycles in
  \<^verbatim>\<open>TRANSFER_PIXELS\<close> up to \<^verbatim>\<open>EOF\<close>, any number of cycles waiting for the write port, and
  the cycle in which it is drained), the value written on completion into the address
  register of the current slot is the last address written plus one, which is the base
  address plus the frame size (modulo the address width); the slot becomes Pending.
\<close>

theorem published_address_is_one_past_last_write:
  assumes "wellformed s" "fsm s = WAIT_SOF" "sa_address_valid s" "frame_sof i" "frame_valid i"
    and "in_transfer ins (cycle i s)" "fsm (run (i # ins) s) = EOF"
    and "\<forall>w\<in>set ws. wdata_valid w" "\<not> wdata_valid d"
  shows "writes (i # ins) s \<noteq> [] \<and> writes ws (run (i # ins) s) = []
    \<and> address_done d (run (i # ins @ ws) s)
    \<and> slots (DMA_sync d (run (i # ins @ ws) s)) ! current_slot (run (i # ins @ ws) s) =
        \<lparr>status_storage = 2, address_storage = fst (last (writes (i # ins) s)) + 1\<rparr>
    \<and> fst (last (writes (i # ins) s)) + 1 = sa_address s + frame_size s"
proof -
  let ?e = "run (i # ins) s"
  let ?f = "run (i # ins @ ws) s"
  have f: "?f = run ws ?e" by (simp add: run_append del: cycle_sel)
  have ad: "map fst (writes (i # ins) s) =
      map (\<lambda>j. sa_address s + of_nat j) [0..<words_until_last (frame_size s)]"
    and ca: "current_address ?e = sa_address s + frame_size s"
    using frame_addresses [OF assms(2-7)] by simp_all
  have "map fst (writes (i # ins) s) \<noteq> []"
    unfolding ad using words_until_last_pos [of "frame_size s"] by simp
  then have ne: "writes (i # ins) s \<noteq> []" by auto
  then have "fst (last (writes (i # ins) s)) = last (map fst (writes (i # ins) s))"
    by (simp add: last_map)
  then have la: "fst (last (writes (i # ins) s)) + 1 = sa_address s + frame_size s"
    unfolding ad by (simp only: last_frame_address)
  from eof_wait [OF assms(7,8)]
  have w: "fsm ?f = EOF" "current_address ?f = current_address ?e" "writes ws ?e = []"
    unfolding f by simp_all
  have dn: "address_done d ?f" using w(1) assms(9) by (simp add: address_done_def)
  have "wellformed ?f" using assms(1) by (rule wellformed_run)
  from current_slot_done [OF this dn]
  have "slots (DMA_sync d ?f) ! current_slot ?f =
      \<lparr>status_storage = 2, address_storage = fst (last (writes (i # ins) s)) + 1\<rparr>"
    unfolding w(2) ca la .
  with ne w(3) dn la show ?thesis by blast
qed

theorem published_address_is_one_past_last_write_witness:
  "fsm (run [consumer (WrFrameSize 4), consumer (WrAddress 0 0x1000),
             consumer (WrStatus 0 1) :: (32, 32) cycle_in] (DMA_reset 3)) = WAIT_SOF
   \<and> sa_address_valid (run [consumer (WrFrameSize 4), consumer (WrAddress 0 0x1000),
             consumer (WrStatus 0 1) :: (32, 32) cycle_in] (DMA_reset 3))
   \<and> fsm (run [pixel True 0xA, pixel True 0xA, pixel False 0xB, pixel False 0xC,
                pixel False 0xD :: (32, 32) cycle_in]
          (run [consumer (WrFrameSize 4), consumer (WrAddress 0 0x1000),
             consumer (WrStatus 0 1) :: (32, 32) cycle_in] (DMA_reset 3))) = EOF
   \<and> writes [pixel True 0xA, pixel True 0xA, pixel False 0xB, pixel False 0xC,
         pixel False 0xD :: (32, 32) cycle_in]
        (run [consumer (WrFrameSize 4), consumer (WrAddress 0 0x1000),
              consumer (WrStatus 0 1) :: (32, 32) cycle_in] (DMA_reset 3))
      = [(0x1000, 0xA), (0x1001, 0xB), (0x1002, 0xC), (0x1003, 0xD)]
   \<and> slots (DMA_sync (idle :: (32, 32) cycle_in)
        (run (pixel True 0xA # [pixel True 0xA, pixel False 0xB, pixel False 0xC, pixel False 0xD]
               @ [idle\<lparr>wdata_valid := True\<rparr> :: (32, 32) cycle_in])
          (run [consumer (WrFrameSize 4), consumer (WrAddress 0 0x1000),
              consumer (WrStatus 0 1) :: (32, 32) cycle_in] (DMA_reset 3)))) ! 0
      = \<lparr>status_storage = 2, address_storage = 0x1004\<rparr>"
proof -
  let ?s = "run [consumer (WrFrameSize 4), consumer (WrAddress 0 0x1000),
              consumer (WrStatus 0 1) :: (32, 32) cycle_in] (DMA_reset 3) :: 32 dma"
  let ?i = "pixel True 0xA :: (32, 32) cycle_in"
  let ?ins = "[pixel True 0xA, pixel False 0xB, pixel False 0xC, pixel False 0xD :: (32, 32) cycle_in]"
  let ?ws = "[idle\<lparr>wdata_valid := True\<rparr> :: (32, 32) cycle_in]"
  let ?d = "idle :: (32, 32) cycle_in"
  have a: "wellformed ?s" "fsm ?s = WAIT_SOF" "sa_address_valid ?s" "frame_sof ?i" "frame_valid ?i"
    by code_simp+
  have b: "in_transfer ?ins (cycle ?i ?s)" "fsm (run (?i # ?ins) ?s) = EOF" by code_simp+
  have c': "list_all wdata_valid ?ws" by code_simp
  then have c: "\<forall>w\<in>set ?ws. wdata_valid w" by (simp only: list_all_iff)
  have d: "\<not> wdata_valid ?d" by code_simp
  have e: "writes (?i # ?ins) ?s = [(0x1000, 0xA), (0x1001, 0xB), (0x1002, 0xC), (0x1003, 0xD)]"
    by code_simp
  have g: "current_slot (run (?i # ?ins @ ?ws) ?s) = 0" by code_simp
  from published_address_is_one_past_last_write [OF a b c d]
  have "slots (DMA_sync ?d (run (?i # ?ins @ ?ws) ?s)) ! 0 =
        \<lparr>status_storage = 2, address_storage = fst (last (writes (?i # ?ins) ?s)) + 1\<rparr>"
    unfolding g by blast
  then have "slots (DMA_sync ?d (run (?i # ?ins @ ?ws) ?s)) ! 0 =
        \<lparr>status_storage = 2, address_storage = 0x1004\<rparr>"
    unfolding e by simp
  with a(2,3) b(2) e show ?thesis by simp
qed

subsection \<open>Who writes which register\<close>

text \<open>
  C9 as stated: the producer leaves the consumer-set address register of every slot
  unchanged, and the consumer never sets Pending. Both fail. On completion the design
  overwrites the address register of the current slot (here \<open>0x1000\<close> becomes \<open>0x1004\<close>),
  and the status register takes whatever the consumer writes, the value 2 included.
\<close>

theorem both_sides_write_slot_registers:
  "address_storage (slots (run frame_with_two_armed (DMA_reset 3)) ! 0) = 0x1000
   \<and> address_storage
        (slots (DMA_sync (idle :: (32, 32) cycle_in) (run frame_with_two_armed (DMA_reset 3))) ! 0)
       = 0x1004
   \<and> status_storage (slots (DMA_reset 3 :: 32 dma) ! 1) = 0
   \<and> status_storage
        (slots (csr_write (csr (consumer (WrStatus 1 2) :: (32, 32) cycle_in)) (DMA_reset 3 :: 32 dma)) ! 1)
       = 2"
  by code_simp

text \<open>
  C9 as amended: the design changes slot registers only in a completion cycle, and then
  only those of the current slot (its status and its address register); it never changes
  the frame size. The consumer never changes \<^verbatim>\<open>current_address\<close>, \<^verbatim>\<open>mwords_remaining\<close>, the
  state of the control FSM or \<^verbatim>\<open>current_slot\<close>; a status write of the consumer stores the
  written value, whatever it is.
\<close>

theorem register_ownership:
  "(\<not> address_done i s \<longrightarrow> slots (DMA_sync i s) = slots s)
   \<and> (\<forall>n<length (slots s). n \<noteq> current_slot s \<longrightarrow> slots (DMA_sync i s) ! n = slots s ! n)
   \<and> frame_size (DMA_sync i s) = frame_size s
   \<and> current_address (csr_write c s) = current_address s
   \<and> mwords_remaining (csr_write c s) = mwords_remaining s
   \<and> fsm (csr_write c s) = fsm s
   \<and> current_slot (csr_write c s) = current_slot s
   \<and> (\<forall>n<length (slots s). status_storage (slots (csr_write (Some (WrStatus n v)) s) ! n) = v)"
  by (simp add: slots_kept other_slot_kept)

theorem register_ownership_witness:
  "\<not> address_done (pixel False 0xB :: (32, 32) cycle_in)
         (run (arm_and_start 4 0x1000 0xA :: (32, 32) cycle_in list) (DMA_reset 3))
   \<and> slots (DMA_sync (pixel False 0xB :: (32, 32) cycle_in)
         (run (arm_and_start 4 0x1000 0xA :: (32, 32) cycle_in list) (DMA_reset 3)))
       = slots (run (arm_and_start 4 0x1000 0xA :: (32, 32) cycle_in list) (DMA_reset 3))
   \<and> current_address (csr_write (Some (WrStatus 0 2))
         (run (arm_and_start 4 0x1000 0xA :: (32, 32) cycle_in list) (DMA_reset 3))) = 0x1000
   \<and> status_storage (slots (csr_write (Some (WrStatus 0 2))
         (run (arm_and_start 4 0x1000 0xA :: (32, 32) cycle_in list) (DMA_reset 3))) ! 0) = 2"
proof -
  let ?i = "pixel False 0xB :: (32, 32) cycle_in"
  let ?s = "run (arm_and_start 4 0x1000 0xA :: (32, 32) cycle_in list) (DMA_reset 3) :: 32 dma"
  have a: "\<not> address_done ?i ?s" by code_simp
  have b: "current_address ?s = 0x1000" by code_simp
  have c: "0 < length (slots ?s)" by code_simp
  note r = register_ownership [of ?i ?s "Some (WrStatus 0 2)" 2]
  from r a have 1: "slots (DMA_sync ?i ?s) = slots ?s" by blast
  from r b have 2: "current_address (csr_write (Some (WrStatus 0 2)) ?s) = 0x1000" by simp
  from r c have 3: "status_storage (slots (csr_write (Some (WrStatus 0 2)) ?s) ! 0) = 2" by blast
  show ?thesis by (rule conjI [OF a conjI [OF 1 conjI [OF 2 3]]])
qed

subsection \<open>A frame size of zero\<close>

lemma frame_addresses_nonzero:
  assumes "fsm s = WAIT_SOF" "sa_address_valid s" "frame_sof i" "frame_valid i"
    and "in_transfer ins (cycle i s)" "fsm (run (i # ins) s) = EOF"
    and "frame_size s \<noteq> 0"
  shows "map fst (writes (i # ins) s) =
           map (\<lambda>j. sa_address s + of_nat j) [0..<unat (frame_size s)]
         \<and> length (writes (i # ins) s) = unat (frame_size s)
         \<and> distinct (map fst (writes (i # ins) s))"
proof -
  have ad: "map fst (writes (i # ins) s) =
      map (\<lambda>j. sa_address s + of_nat j) [0..<unat (frame_size s)]"
    using frame_addresses(1) [OF assms(1-6)] assms(7) by (simp add: words_until_last_def)
  then have "length (map fst (writes (i # ins) s)) = unat (frame_size s)" by simp
  then have len: "length (writes (i # ins) s) = unat (frame_size s)" by simp
  have "inj_on (\<lambda>j. sa_address s + (of_nat j :: 'a word)) {0..<unat (frame_size s)}"
  proof (rule inj_onI)
    fix x y
    assume x: "x \<in> {0..<unat (frame_size s)}" and y: "y \<in> {0..<unat (frame_size s)}"
      and "sa_address s + (of_nat x :: 'a word) = sa_address s + of_nat y"
    then have "(of_nat x :: 'a word) = of_nat y" by simp
    moreover have "x < 2 ^ LENGTH('a)"
    proof -
      have "x < unat (frame_size s)" using x by simp
      also have "unat (frame_size s) < 2 ^ LENGTH('a)" by simp
      finally show ?thesis .
    qed
    moreover have "y < 2 ^ LENGTH('a)"
    proof -
      have "y < unat (frame_size s)" using y by simp
      also have "unat (frame_size s) < 2 ^ LENGTH('a)" by simp
      finally show ?thesis .
    qed
    ultimately show "x = y" by (simp add: word_of_nat_eq_iff take_bit_nat_eq_self)
  qed
  then have "distinct (map fst (writes (i # ins) s))"
    unfolding ad by (simp add: distinct_map)
  with ad len show ?thesis by simp
qed

lemma remaining_nonzero_cycle:
  "frame_size s \<noteq> 0 \<Longrightarrow> fsm s = TRANSFER_PIXELS \<longrightarrow> mwords_remaining s \<noteq> 0 \<Longrightarrow>
   fsm (cycle i s) = TRANSFER_PIXELS \<longrightarrow> mwords_remaining (cycle i s) \<noteq> 0"
  by (cases "fsm s")
     (auto simp: next_fsm_def reset_words_def count_word_def last_word_def split: if_splits)

text \<open>
  C3 at a frame size of zero, with 2-bit addresses and base address 1: the transfer
  completes (the engine reaches \<^verbatim>\<open>EOF\<close>) after four words have been written, to the
  addresses 1, 2, 3 and 0, where the claim asks for no write at all.
\<close>

theorem zero_frame_size_writes_whole_address_range:
  "frame_size (run zero_size_frame_small (DMA_reset 3)) = 0
   \<and> fsm (run zero_size_frame_small (DMA_reset 3)) = EOF
   \<and> map fst (writes zero_size_frame_small (DMA_reset 3)) = [1, 2, 3, 0]
   \<and> length (writes zero_size_frame_small (DMA_reset 3)) = 4"
  by code_simp

text \<open>
  C4 at a frame size of zero, with 32-bit addresses: the first word of the frame is
  committed while \<^verbatim>\<open>mwords_remaining\<close> is 0; the counter wraps around and the engine goes on
  writing, having exceeded the configured size with its first write.
\<close>

theorem zero_frame_size_commits_at_zero_remaining:
  "frame_size (run (arm_and_start 0 0x1000 0xA :: (32, 32) cycle_in list) (DMA_reset 3)) = 0
   \<and> mwords_remaining (run (arm_and_start 0 0x1000 0xA :: (32, 32) cycle_in list) (DMA_reset 3)) = 0
   \<and> count_word (pixel True 0xA :: (32, 32) cycle_in)
        (run (arm_and_start 0 0x1000 0xA :: (32, 32) cycle_in list) (DMA_reset 3))
   \<and> writes zero_size_frame (DMA_reset 3) = [(0x1000, 0xA), (0x1001, 0xB)]
   \<and> fsm (run zero_size_frame (DMA_reset 3)) = TRANSFER_PIXELS
   \<and> mwords_remaining (run zero_size_frame (DMA_reset 3)) = 0xFFFFFFFE"
  by code_simp

end
